theory Spec2Isabelle
  imports Main "HOL-Library.Sublist"
begin

section \<open>Question records and the record store\<close>

text \<open>
  The dataclass \<open>QA\<close> of \<open>quiz_core.py\<close> and the dictionaries built by
  \<open>parse_docx\<close> carry the same five fields, the columns of the table \<open>questions\<close>.
  The surrogate column \<open>id\<close> is read by no query of the repository and is left out.
  The table is a list of rows in scan order.
\<close>

record QA =
  qnum :: int
  question_text :: string
  answer_text :: string
  answer_value :: "string option"
  answer_option :: "string option"

type_synonym store = "QA list"

subsection \<open>Sampling a round\<close>

text \<open>
  Every \<open>raise\<close> of \<open>load_random_questions\<close> is a constructor: the two explicit
  \<open>ValueError\<close>s (\<open>SystemExit\<close> in \<open>quiz.py\<close>), the \<open>ValueError\<close> of
  \<open>random.sample\<close> for a sample size outside \<open>0..len(population)\<close>, and the
  \<open>KeyError\<close> of the dictionary lookup \<open>by_qnum[n]\<close>.
\<close>

datatype error =
    EmptyStore
  | OversizedRequest int int
  | SampleRange
  | KeyError int

text \<open>
  \<open>random.Random(seed).sample\<close> belongs to the Python standard library. Its range check
  is written out; the draw itself is the parameter \<open>draw\<close>, a function of the seed, the
  population and the sample size. With \<open>seed = None\<close> the generator is seeded from the
  operating system, which the model passes as the explicit argument \<open>entropy\<close>.
  The two \<open>SELECT\<close> statements are taken to run as written on an existing table:
  limits of the engine, such as the number of host parameters of one statement, are
  outside the model.
\<close>

type_synonym sampler = "int \<Rightarrow> int list \<Rightarrow> nat \<Rightarrow> int list"

definition rng_sample :: "sampler \<Rightarrow> int \<Rightarrow> int list \<Rightarrow> int \<Rightarrow> error + int list" where
  "rng_sample draw s population k =
     (if 0 \<le> k \<and> k \<le> int (length population)
      then Inr (draw s population (nat k))
      else Inl SampleRange)"

text \<open>\<open>{r["qnum"]: r for r in rows}\<close>: a later row replaces an earlier one.\<close>

definition by_qnum :: "QA list \<Rightarrow> int \<Rightarrow> QA option" where
  "by_qnum rows = map_of (rev (map (\<lambda>r. (qnum r, r)) rows))"

text \<open>\<open>[by_qnum[n] for n in chosen]\<close>: the first missing key raises.\<close>

fun ordered :: "(int \<Rightarrow> QA option) \<Rightarrow> int list \<Rightarrow> error + QA list" where
  "ordered d [] = Inr []"
| "ordered d (n # ns) =
     (case d n of
        None \<Rightarrow> Inl (KeyError n)
      | Some r \<Rightarrow> (case ordered d ns of Inl e \<Rightarrow> Inl e | Inr rs \<Rightarrow> Inr (r # rs)))"

definition load_random_questions ::
  "sampler \<Rightarrow> int \<Rightarrow> store \<Rightarrow> int \<Rightarrow> int option \<Rightarrow> error + QA list" where
  "load_random_questions draw entropy db count seed =
     (let s = (case seed of Some v \<Rightarrow> v | None \<Rightarrow> entropy);
          total = int (length db)
      in if total = 0 then Inl EmptyStore
         else if count > total then Inl (OversizedRequest count total)
         else
           (let qnums = map qnum db
            in case rng_sample draw s qnums count of
                 Inl e \<Rightarrow> Inl e
               | Inr chosen \<Rightarrow>
                   (let rows = filter (\<lambda>r. qnum r \<in> set chosen) db
                    in ordered (by_qnum rows) chosen)))"

section \<open>Python strings\<close>

text \<open>
  Text is modelled as \<open>string\<close> over ASCII: the whitespace of \<open>str.strip\<close> and of the
  pattern \<open>\s\<close> is the tab to carriage-return range, the four separators \<open>0x1C\<close> to
  \<open>0x1F\<close> and the space; letters, digits and word characters are the ASCII ones.
  A character from \<open>0x80\<close> on is carried along unchanged and belongs to none of
  these classes.
\<close>

definition is_space :: "char \<Rightarrow> bool" where
  "is_space c = (let n = (of_char c :: nat) in (9 \<le> n \<and> n \<le> 13) \<or> (28 \<le> n \<and> n \<le> 32))"

definition is_alpha :: "char \<Rightarrow> bool" where
  "is_alpha c = (let n = (of_char c :: nat) in (65 \<le> n \<and> n \<le> 90) \<or> (97 \<le> n \<and> n \<le> 122))"

definition is_digit :: "char \<Rightarrow> bool" where
  "is_digit c = (let n = (of_char c :: nat) in 48 \<le> n \<and> n \<le> 57)"

text \<open>The class \<open>\w\<close>, which decides where \<open>\b\<close> matches.\<close>

definition is_word :: "char \<Rightarrow> bool" where
  "is_word c = (is_alpha c \<or> is_digit c \<or> c = CHR ''_'')"

definition upper_char :: "char \<Rightarrow> char" where
  "upper_char c = (let n = (of_char c :: nat) in if 97 \<le> n \<and> n \<le> 122 then char_of (n - 32) else c)"

definition lower_char :: "char \<Rightarrow> char" where
  "lower_char c = (let n = (of_char c :: nat) in if 65 \<le> n \<and> n \<le> 90 then char_of (n + 32) else c)"

definition upper :: "string \<Rightarrow> string" where
  "upper s = map upper_char s"

definition lower :: "string \<Rightarrow> string" where
  "lower s = map lower_char s"

definition lstrip :: "string \<Rightarrow> string" where
  "lstrip s = dropWhile is_space s"

definition rstrip :: "string \<Rightarrow> string" where
  "rstrip s = rev (dropWhile is_space (rev s))"

definition strip :: "string \<Rightarrow> string" where
  "strip s = rstrip (lstrip s)"

definition isalpha :: "string \<Rightarrow> bool" where
  "isalpha s = (s \<noteq> [] \<and> list_all is_alpha s)"

text \<open>\<open>sub in s\<close>: \<open>sub\<close> occurs in \<open>s\<close> as a contiguous run.\<close>

fun contains :: "string \<Rightarrow> string \<Rightarrow> bool" where
  "contains sub [] = (sub = [])"
| "contains sub (c # cs) = (prefix sub (c # cs) \<or> contains sub cs)"

text \<open>\<open>s.split(d)\<close> for a one-character separator: never empty, keeps empty pieces.\<close>

fun split :: "char \<Rightarrow> string \<Rightarrow> string list" where
  "split d [] = [[]]"
| "split d (c # cs) =
     (if c = d then [] # split d cs
      else (case split d cs of [] \<Rightarrow> [[c]] | p # ps \<Rightarrow> (c # p) # ps))"

text \<open>\<open>re.sub(r"\s+", " ", s)\<close>: every maximal run of whitespace becomes one space.\<close>

function sub_spaces :: "string \<Rightarrow> string" where
  "sub_spaces [] = []"
| "sub_spaces (c # cs) =
     (if is_space c then CHR '' '' # sub_spaces (dropWhile is_space cs)
      else c # sub_spaces cs)"
  by pat_completeness auto
termination
  by (relation "measure length") (auto simp: length_dropWhile_le less_Suc_eq_le)

section \<open>Grading\<close>

definition normalize :: "string \<Rightarrow> string" where
  "normalize s = lower (sub_spaces (strip s))"

definition split_csv_list :: "string \<Rightarrow> string list" where
  "split_csv_list s = filter (\<lambda>p. p \<noteq> []) (map strip (split CHR '','' s))"

text \<open>
  \<open>re.search(rf"\b{re.escape(u)}\b", t) is not None\<close>. The escaped pattern matches
  \<open>u\<close> literally, and \<open>\b\<close> matches between two positions exactly one of which holds
  a word character, the outside of the text counting as a non-word position.
  \<open>search_wb u p t\<close> scans \<open>t\<close> from left to right, \<open>p\<close> being the character just
  before the current position.
\<close>

definition wordc :: "char option \<Rightarrow> bool" where
  "wordc x = (case x of None \<Rightarrow> False | Some c \<Rightarrow> is_word c)"

definition boundary :: "char option \<Rightarrow> char option \<Rightarrow> bool" where
  "boundary p n = (wordc p \<noteq> wordc n)"

definition first_char :: "string \<Rightarrow> char option" where
  "first_char s = (case s of [] \<Rightarrow> None | c # _ \<Rightarrow> Some c)"

definition match_here :: "string \<Rightarrow> char option \<Rightarrow> string \<Rightarrow> bool" where
  "match_here u p t =
     (prefix u t \<and> boundary p (first_char t) \<and>
      boundary (if u = [] then p else Some (last u)) (first_char (drop (length u) t)))"

fun search_wb :: "string \<Rightarrow> char option \<Rightarrow> string \<Rightarrow> bool" where
  "search_wb u p [] = match_here u p []"
| "search_wb u p (c # cs) = (match_here u p (c # cs) \<or> search_wb u (Some c) cs)"

definition re_search_b :: "string \<Rightarrow> string \<Rightarrow> bool" where
  "re_search_b u t = search_wb u None t"

text \<open>Python truthiness of an \<open>Optional[str]\<close>: \<open>None\<close> and the empty string are false.\<close>

definition truthy :: "string option \<Rightarrow> bool" where
  "truthy v = (case v of None \<Rightarrow> False | Some s \<Rightarrow> s \<noteq> [])"

definition or_empty :: "string option \<Rightarrow> string" where
  "or_empty v = (case v of None \<Rightarrow> [] | Some s \<Rightarrow> s)"

text \<open>\<open>is_correct\<close> of \<open>GUI/src/quiz_core.py\<close>, branch by branch.\<close>

definition is_correct :: "string \<Rightarrow> QA \<Rightarrow> bool \<Rightarrow> bool" where
  "is_correct user_answer qa case_sensitive =
     (let ua = strip user_answer
      in if ua = [] then False
         else if truthy (answer_option qa) then
           (if upper ua = upper (strip (or_empty (answer_option qa))) then True
            else if length ua = 1 \<and> isalpha ua then False
            else False)
         else if truthy (answer_value qa) \<and>
           (let av = or_empty (answer_value qa);
                qlow = lower (question_text qa);
                order_required =
                  (contains ''alphabetical order'' qlow \<or> contains ''reverse alphabetical'' qlow)
            in ((\<not> order_required \<and> contains '','' av \<and> contains '','' ua) \<and>
                (let exp_parts = split_csv_list av;
                     user_parts = split_csv_list ua
                 in if case_sensitive then set user_parts = set exp_parts
                    else set (map normalize user_parts) = set (map normalize exp_parts)))
               \<or> (if case_sensitive then ua = strip av
                   else normalize ua = normalize av))
         then True
         else
           (let at = answer_text qa
            in if case_sensitive then
                 (if length ua < 3 then False else re_search_b ua at)
               else
                 (let ua_n = normalize ua;
                      at_n = normalize at
                  in if length ua_n < 3 then False else re_search_b ua_n at_n)))"

text \<open>
  \<open>is_correct\<close> of \<open>quiz.py\<close>, which \<open>GUI/quiz_core.py\<close> repeats: the older
  grading, where a stored option letter is one more way to be right and the fallback is
  a plain substring test.
\<close>

definition is_correct_cli :: "string \<Rightarrow> QA \<Rightarrow> bool \<Rightarrow> bool" where
  "is_correct_cli user_answer qa case_sensitive =
     (let ua = strip user_answer
      in if ua = [] then False
         else if truthy (answer_option qa) \<and>
                 upper (strip ua) = upper (or_empty (answer_option qa)) then True
         else if truthy (answer_value qa) \<and>
                 (if case_sensitive then strip ua = strip (or_empty (answer_value qa))
                  else normalize ua = normalize (or_empty (answer_value qa))) then True
         else if case_sensitive then contains ua (answer_text qa)
         else contains (normalize ua) (normalize (answer_text qa)))"

section \<open>Parsing the document\<close>

text \<open>
  \<open>next(j for j, x in enumerate(xs) if P x)\<close>: the index of the first element with
  \<open>P\<close>, \<open>None\<close> standing for \<open>StopIteration\<close> or the default.
\<close>

definition first_index :: "('a \<Rightarrow> bool) \<Rightarrow> 'a list \<Rightarrow> nat option" where
  "first_index P xs =
     (if list_ex P xs then Some (length (takeWhile (\<lambda>x. \<not> P x) xs)) else None)"

text \<open>\<open>xs[a:b]\<close> for indices that are not negative.\<close>

definition slice :: "'a list \<Rightarrow> nat \<Rightarrow> nat \<Rightarrow> 'a list" where
  "slice xs a b = take (b - a) (drop a xs)"

definition int_of_digits :: "string \<Rightarrow> nat" where
  "int_of_digits ds = foldl (\<lambda>a c. 10 * a + (of_char c - 48)) 0 ds"

text \<open>
  \<open>Q_MARKER_RE.match\<close> for the pattern
  \<open>^Question\s+(?P<num>\d+)\s+of\s+(?P<total>\d+)\s*$\<close> with \<open>re.IGNORECASE\<close>. The
  character classes that follow one another are disjoint, so the greedy runs are the
  only way to match; the result is the pair of the two numbers.
\<close>

definition Q_MARKER_RE :: "string \<Rightarrow> (nat \<times> nat) option" where
  "Q_MARKER_RE t =
     (let r1 = drop 8 t;
          r2 = dropWhile is_space r1;
          num = takeWhile is_digit r2;
          r3 = dropWhile is_digit r2;
          r4 = dropWhile is_space r3;
          r5 = drop 2 r4;
          r6 = dropWhile is_space r5;
          total = takeWhile is_digit r6;
          r7 = dropWhile is_digit r6
      in if lower (take 8 t) = ''question'' \<and> takeWhile is_space r1 \<noteq> [] \<and> num \<noteq> [] \<and>
            takeWhile is_space r3 \<noteq> [] \<and> lower (take 2 r4) = ''of'' \<and>
            takeWhile is_space r5 \<noteq> [] \<and> total \<noteq> [] \<and> list_all is_space r7
         then Some (int_of_digits num, int_of_digits total)
         else None)"

definition is_q_marker :: "string \<Rightarrow> bool" where
  "is_q_marker t = (Q_MARKER_RE (strip t) \<noteq> None)"

definition marker :: string where
  "marker = ''[+] Answer>''"

text \<open>\<open>line.split(m, 1)[1]\<close> for a line that contains \<open>m\<close>: what follows its first occurrence.\<close>

fun after :: "string \<Rightarrow> string \<Rightarrow> string" where
  "after m [] = []"
| "after m (c # cs) = (if prefix m (c # cs) then drop (length m) (c # cs) else after m cs)"

definition is_separator :: "string \<Rightarrow> bool" where
  "is_separator line = (set (strip line) = {CHR ''=''} \<and> length (strip line) > 10)"

text \<open>\<open>while ls and ls[-1].strip() == "": ls.pop()\<close>\<close>

function pop_blank :: "string list \<Rightarrow> string list" where
  "pop_blank ls = (if ls \<noteq> [] \<and> strip (last ls) = [] then pop_blank (butlast ls) else ls)"
  by pat_completeness auto
termination
  by (relation "measure length") auto

declare pop_blank.simps [simp del]

definition nl :: char where
  "nl = CHR 0x0A"

fun join_nl :: "string list \<Rightarrow> string" where
  "join_nl [] = []"
| "join_nl [l] = l"
| "join_nl (l # m # ls) = l @ nl # join_nl (m # ls)"

text \<open>\<open>s.strip("\n")\<close>\<close>

definition strip_nl :: "string \<Rightarrow> string" where
  "strip_nl s = rev (dropWhile (\<lambda>c. c = nl) (rev (dropWhile (\<lambda>c. c = nl) s)))"

subsection \<open>Derived grading keys\<close>

text \<open>
  \<open>re.search(r"the correct answer is\s+(.*)$", l2, flags=re.IGNORECASE)\<close> on a stripped
  line: the leftmost occurrence of the phrase that is followed by whitespace and then
  by text free of newlines up to the end; group 1 is that text.
\<close>

fun search_phrase :: "string \<Rightarrow> string option" where
  "search_phrase [] = None"
| "search_phrase (c # cs) =
     (let r = drop 21 (c # cs);
          g = dropWhile is_space r
      in if lower (take 21 (c # cs)) = ''the correct answer is'' \<and>
            takeWhile is_space r \<noteq> [] \<and> nl \<notin> set g
         then Some g
         else search_phrase cs)"

definition is_upper :: "char \<Rightarrow> bool" where
  "is_upper c = (let n = (of_char c :: nat) in 65 \<le> n \<and> n \<le> 90)"

text \<open>
  \<open>re.match(r"^(.*)\s+\(([A-Z])\)\s*$", rest)\<close> on a stripped \<open>rest\<close> without
  newlines: the last three characters are the parenthesised letter, the one before is
  whitespace, and the greedy group 1 is everything before that.
\<close>

definition match_option :: "string \<Rightarrow> (string \<times> string) option" where
  "match_option rest =
     (let n = length rest
      in if 4 \<le> n \<and> is_space (rest ! (n - 4)) \<and> rest ! (n - 3) = CHR ''('' \<and>
            is_upper (rest ! (n - 2)) \<and> rest ! (n - 1) = CHR '')''
         then Some (take (n - 4) rest, [rest ! (n - 2)])
         else None)"

text \<open>
  \<open>re.match(r"^(.*)\s+\((.*)\)\s*$", rest)\<close>: \<open>rest\<close> ends with a closing
  parenthesis, and the greedy group 1 ends at the last whitespace character that is
  followed by an opening parenthesis before that end.
\<close>

definition match_paren :: "string \<Rightarrow> (string \<times> string) option" where
  "match_paren rest =
     (let n = length rest;
          ks = filter (\<lambda>k. is_space (rest ! k) \<and> rest ! (k + 1) = CHR ''('') [0..<n - 2]
      in if rest \<noteq> [] \<and> last rest = CHR '')'' \<and> ks \<noteq> []
         then Some (take (last ks) rest, slice rest (last ks + 2) (n - 1))
         else None)"

text \<open>The loop over \<open>a_lines\<close> that derives \<open>(answer_value, answer_option)\<close>.\<close>

fun derive_keys :: "string list \<Rightarrow> string option \<times> string option" where
  "derive_keys [] = (None, None)"
| "derive_keys (l # ls) =
     (case search_phrase (strip l) of
        None \<Rightarrow> derive_keys ls
      | Some g \<Rightarrow>
          (let rest = strip g
           in case match_option rest of
                Some (v, opt) \<Rightarrow> (Some (strip v), Some (strip opt))
              | None \<Rightarrow>
                  (case match_paren rest of
                     Some (l1, r1) \<Rightarrow>
                       (let left = strip l1; right = strip r1
                        in (Some (if lower right = lower left then right else left), None))
                   | None \<Rightarrow> (Some rest, None))))"

subsection \<open>Blocks and records\<close>

text \<open>
  The body of the loop of \<open>parse_docx\<close> for one block \<open>paras[start:end]\<close>; \<open>None\<close>
  is a \<open>continue\<close>. A block is never empty, since \<open>start < end\<close>.
\<close>

definition parse_block :: "string list \<Rightarrow> QA option" where
  "parse_block block =
     (case block of
        [] \<Rightarrow> None
      | b0 # _ \<Rightarrow>
         (case Q_MARKER_RE (strip b0) of
            None \<Rightarrow> None
          | Some (num, _) \<Rightarrow>
             (case first_index (contains marker) block of
                None \<Rightarrow> None
              | Some ans_idx \<Rightarrow>
                 (let q_lines = slice block 1 ans_idx;
                      marker_line = block ! ans_idx;
                      post_marker =
                        (if contains marker marker_line then after marker marker_line else []);
                      a_lines0 = (if post_marker \<noteq> [] then [post_marker] else [])
                                   @ drop (ans_idx + 1) block;
                      a_lines1 = (case first_index is_separator a_lines0 of
                                    None \<Rightarrow> a_lines0
                                  | Some sep_pos \<Rightarrow> take sep_pos a_lines0);
                      q_lines' = pop_blank q_lines;
                      a_lines = pop_blank a_lines1;
                      keys = derive_keys a_lines
                  in Some \<lparr>qnum = int num,
                           question_text = strip_nl (join_nl q_lines'),
                           answer_text = strip_nl (join_nl a_lines),
                           answer_value = fst keys,
                           answer_option = snd keys\<rparr>))))"

text \<open>
  \<open>q_indices\<close> and the blocks \<open>paras[start:end]\<close>, where \<open>end\<close> is the next
  index of \<open>q_indices\<close> or \<open>len(paras)\<close> for the last one.
\<close>

definition q_indices :: "string list \<Rightarrow> nat list" where
  "q_indices paras = map fst (filter (\<lambda>(i, t). is_q_marker t) (enumerate 0 paras))"

fun block_list :: "string list \<Rightarrow> nat list \<Rightarrow> string list list" where
  "block_list paras [] = []"
| "block_list paras [start] = [slice paras start (length paras)]"
| "block_list paras (start # nxt # rest) =
     slice paras start nxt # block_list paras (nxt # rest)"

text \<open>\<open>parse_docx\<close> on the paragraph texts \<open>p.text\<close> of the document, in order.\<close>

definition parse_docx :: "string list \<Rightarrow> QA list" where
  "parse_docx texts =
     (let paras = map rstrip texts
      in List.map_filter parse_block (block_list paras (q_indices paras)))"

section \<open>Writing the store\<close>

text \<open>
  One \<open>INSERT ... ON CONFLICT(qnum) DO UPDATE\<close>: the row with the same \<open>qnum\<close> gets
  the four other columns of the new record, and a record with a new \<open>qnum\<close> is
  appended. \<open>executemany\<close> runs the statement for the records in order.
\<close>

fun upsert_row :: "QA \<Rightarrow> store \<Rightarrow> store" where
  "upsert_row q [] = [q]"
| "upsert_row q (r # rs) =
     (if qnum r = qnum q
      then r\<lparr>question_text := question_text q, answer_text := answer_text q,
             answer_value := answer_value q, answer_option := answer_option q\<rparr> # rs
      else r # upsert_row q rs)"

definition upsert_questions :: "store \<Rightarrow> QA list \<Rightarrow> store" where
  "upsert_questions db questions = foldl (\<lambda>s q. upsert_row q s) db questions"


section \<open>Notions of the specification\<close>

text \<open>
  The contract of \<open>random.sample\<close>: a sample of size \<open>k\<close> within the population has
  \<open>k\<close> elements, all taken from the population.
\<close>

definition sample_contract :: "sampler \<Rightarrow> bool" where
  "sample_contract draw =
     (\<forall>s pop k. k \<le> length pop \<longrightarrow>
        length (draw s pop k) = k \<and> set (draw s pop k) \<subseteq> set pop)"

text \<open>
  A whole-word occurrence of \<open>u\<close> in \<open>t\<close>: \<open>t\<close> splits into the text before, \<open>u\<close>
  and the text after, with a word boundary at both ends of \<open>u\<close>.
\<close>

definition last_char :: "string \<Rightarrow> char option" where
  "last_char s = (if s = [] then None else Some (last s))"

definition whole_word_match :: "string \<Rightarrow> string \<Rightarrow> bool" where
  "whole_word_match u t =
     (\<exists>pre post. t = pre @ u @ post \<and>
        boundary (last_char pre) (first_char (u @ post)) \<and>
        boundary (last_char (pre @ u)) (first_char post))"

text \<open>The steps of \<open>is_correct\<close> after the option letter, named as the specification names them.\<close>

definition order_required :: "QA \<Rightarrow> bool" where
  "order_required qa =
     (let qlow = lower (question_text qa)
      in contains ''alphabetical order'' qlow \<or> contains ''reverse alphabetical'' qlow)"

definition set_match :: "string \<Rightarrow> string \<Rightarrow> bool \<Rightarrow> bool" where
  "set_match ua av case_sensitive =
     (let exp_parts = split_csv_list av;
          user_parts = split_csv_list ua
      in if case_sensitive then set user_parts = set exp_parts
         else set (map normalize user_parts) = set (map normalize exp_parts))"

definition whole_match :: "string \<Rightarrow> string \<Rightarrow> bool \<Rightarrow> bool" where
  "whole_match ua av case_sensitive =
     (if case_sensitive then ua = strip av else normalize ua = normalize av)"

definition value_match :: "string \<Rightarrow> QA \<Rightarrow> bool \<Rightarrow> bool" where
  "value_match ua qa case_sensitive =
     (truthy (answer_value qa) \<and>
      (let av = or_empty (answer_value qa)
       in (\<not> order_required qa \<and> contains '','' av \<and> contains '','' ua \<and>
             set_match ua av case_sensitive)
          \<or> whole_match ua av case_sensitive))"

definition phrase_match :: "string \<Rightarrow> string \<Rightarrow> bool \<Rightarrow> bool" where
  "phrase_match ua at case_sensitive =
     (if case_sensitive
      then 3 \<le> length (strip ua) \<and> whole_word_match (strip ua) at
      else 3 \<le> length (normalize ua) \<and> whole_word_match (normalize ua) (normalize at))"

text \<open>
  The pieces of a comma-separated answer, stated without the splitting code: \<open>s\<close> is
  some comma-free strings joined by commas, and the pieces are those strings, trimmed,
  the empty ones left out. The result is a set: neither order nor repetition counts.
\<close>

fun join_on :: "char \<Rightarrow> string list \<Rightarrow> string" where
  "join_on d [] = []"
| "join_on d [p] = p"
| "join_on d (p # q # ps) = p @ d # join_on d (q # ps)"

definition csv_pieces :: "string \<Rightarrow> string set" where
  "csv_pieces s =
     {strip p | p. strip p \<noteq> [] \<and>
        (\<exists>ps. ps \<noteq> [] \<and> (\<forall>q\<in>set ps. CHR '','' \<notin> set q) \<and>
              join_on CHR '','' ps = s \<and> p \<in> set ps)}"

text \<open>The character before a position: the last one of the text read so far, or \<open>p\<close>.\<close>

definition prev_char :: "char option \<Rightarrow> string \<Rightarrow> char option" where
  "prev_char p s = (if s = [] then p else Some (last s))"

text \<open>
  The blocks of a document by recursion on its lines: a marker line opens a block that
  runs up to the next marker line, and the lines before the first marker belong to none.
\<close>

fun blocks :: "string list \<Rightarrow> string list list" where
  "blocks [] = []"
| "blocks (l # ls) =
     (if is_q_marker l then (l # takeWhile (\<lambda>x. \<not> is_q_marker x) ls) # blocks ls
      else blocks ls)"

text \<open>\<open>q_indices\<close> for a document whose first line has index \<open>n\<close>.\<close>

definition q_from :: "nat \<Rightarrow> string list \<Rightarrow> nat list" where
  "q_from n paras = map fst (filter (\<lambda>(i, t). is_q_marker t) (enumerate n paras))"

text \<open>
  The steps of the loop body of \<open>parse_docx\<close>, named: the answer segment made of the
  text after the marker (when there is some) and the following lines, its truncation
  at the first separator line, and the text stored for a segment.
\<close>

definition answer_segment :: "string \<Rightarrow> string list \<Rightarrow> string list" where
  "answer_segment marker_line rest =
     (if after marker marker_line \<noteq> [] then [after marker marker_line] else []) @ rest"

definition cut_separator :: "string list \<Rightarrow> string list" where
  "cut_separator ls =
     (case first_index is_separator ls of None \<Rightarrow> ls | Some sep_pos \<Rightarrow> take sep_pos ls)"

definition segment_text :: "string list \<Rightarrow> string" where
  "segment_text ls = strip_nl (join_nl (pop_blank ls))"

text \<open>Blank lines, and a segment without its trailing blank lines.\<close>

definition is_blank :: "string \<Rightarrow> bool" where
  "is_blank l = (strip l = [])"

definition drop_trailing_blank :: "string list \<Rightarrow> string list" where
  "drop_trailing_blank ls = rev (dropWhile is_blank (rev ls))"

text \<open>
  \<open>text\<close> is \<open>whole\<close> without a prefix of newline characters and without a suffix of
  whitespace: whatever lies between is kept character by character.
\<close>

definition kept_verbatim :: "string \<Rightarrow> string \<Rightarrow> bool" where
  "kept_verbatim whole text =
     (\<exists>pre suf. whole = pre @ text @ suf \<and> (\<forall>c\<in>set pre. c = nl) \<and> (\<forall>c\<in>set suf. is_space c))"


section \<open>Auxiliary facts\<close>

subsection \<open>Stripping and splitting\<close>

lemma mem_dropWhile: "\<not> P c \<Longrightarrow> c \<in> set xs \<Longrightarrow> c \<in> set (dropWhile P xs)"
  by (induction xs) auto

lemma mem_strip: "c \<in> set s \<Longrightarrow> \<not> is_space c \<Longrightarrow> c \<in> set (strip s)"
  by (simp add: strip_def rstrip_def lstrip_def mem_dropWhile)

lemma last_dropWhile: "dropWhile P xs \<noteq> [] \<Longrightarrow> last (dropWhile P xs) = last xs"
  by (induction xs) (auto split: if_splits)

lemma strip_fixed: "t = [] \<or> (\<not> is_space (hd t) \<and> \<not> is_space (last t)) \<Longrightarrow> strip t = t"
proof (cases "t = []")
  case True
  then show ?thesis by (simp add: strip_def rstrip_def lstrip_def)
next
  case False
  assume "t = [] \<or> (\<not> is_space (hd t) \<and> \<not> is_space (last t))"
  with False have h: "\<not> is_space (hd t)" and l: "\<not> is_space (last t)" by auto
  from False h have 1: "dropWhile is_space t = t" by (cases t) auto
  from False l have 2: "dropWhile is_space (rev t) = rev t"
    by (cases "rev t") (auto simp flip: hd_rev)
  show ?thesis by (simp add: strip_def rstrip_def lstrip_def 1 2)
qed

lemma strip_ends: "strip s = [] \<or> (\<not> is_space (hd (strip s)) \<and> \<not> is_space (last (strip s)))"
proof (cases "dropWhile is_space s = []")
  case True
  have "strip s = rev (dropWhile is_space (rev (dropWhile is_space s)))"
    by (simp add: strip_def rstrip_def lstrip_def)
  also have "\<dots> = []" by (simp only: True rev.simps dropWhile.simps)
  finally have "strip s = []" .
  then show ?thesis by simp
next
  case False
  define x where "x = dropWhile is_space s"
  define y where "y = dropWhile is_space (rev x)"
  from False have xh: "\<not> is_space (hd x)" unfolding x_def by (simp add: hd_dropWhile)
  from False have xne: "x \<noteq> []" by (simp add: x_def)
  have "hd x \<in> set (rev x)" using xne by simp
  with xh have "hd x \<in> set y" unfolding y_def by (simp add: mem_dropWhile)
  then have yne: "y \<noteq> []" by auto
  then have yh: "\<not> is_space (hd y)" unfolding y_def by (simp add: hd_dropWhile)
  from yne have "last y = last (rev x)" unfolding y_def by (rule last_dropWhile)
  then have yl: "last y = hd x" using xne by (simp add: last_rev)
  have s: "strip s = rev y" by (simp add: strip_def rstrip_def lstrip_def x_def y_def)
  from yne yh yl xh show ?thesis by (simp add: s hd_rev last_rev)
qed

lemma strip_strip: "strip (strip s) = strip s"
  by (rule strip_fixed) (rule strip_ends)

lemma contains_single: "contains [c] s \<longleftrightarrow> c \<in> set s"
  by (induction s) auto

lemma split_nonempty: "split d s \<noteq> []"
  by (induction s) (auto split: list.splits)

lemma lstrip_Cons_space: "is_space c \<Longrightarrow> lstrip (c # s) = lstrip s"
  by (simp add: lstrip_def)

lemma strip_Cons_space: "is_space c \<Longrightarrow> strip (c # s) = strip s"
  by (simp add: strip_def lstrip_def)

lemma rstrip_snoc_space: "is_space c \<Longrightarrow> rstrip (s @ [c]) = rstrip s"
  by (simp add: rstrip_def)

lemma rstrip_snoc_other: "\<not> is_space c \<Longrightarrow> rstrip (s @ [c]) = s @ [c]"
  by (simp add: rstrip_def)

lemma lstrip_snoc_space: "is_space c \<Longrightarrow> lstrip (s @ [c]) = (if lstrip s = [] then [] else lstrip s @ [c])"
  by (induction s) (auto simp: lstrip_def)

lemma rstrip_Nil: "rstrip [] = []"
  by (simp add: rstrip_def)

lemma strip_snoc_space: "is_space c \<Longrightarrow> strip (s @ [c]) = strip s"
  by (simp add: strip_def lstrip_snoc_space rstrip_snoc_space rstrip_Nil)

lemma split_snoc:
  "split d (s @ [c]) =
     (if c = d then split d s @ [[]]
      else butlast (split d s) @ [last (split d s) @ [c]])"
proof (induction s)
  case Nil
  then show ?case by simp
next
  case (Cons a s)
  obtain p ps where sp: "split d s = p # ps"
    using split_nonempty [of d s] by (cases "split d s") auto
  obtain q qs where sq: "split d (s @ [c]) = q # qs"
    using split_nonempty [of d "s @ [c]"] by (cases "split d (s @ [c])") auto
  from Cons sp sq show ?case
    by (cases ps) (auto split: if_splits)
qed

lemma map_strip_split_lstrip:
  "\<not> is_space d \<Longrightarrow> map strip (split d (lstrip s)) = map strip (split d s)"
proof (induction s)
  case Nil
  then show ?case by (simp add: lstrip_def)
next
  case (Cons c s)
  show ?case
  proof (cases "is_space c")
    case True
    with Cons.prems have cd: "c \<noteq> d" by auto
    obtain p ps where sp: "split d s = p # ps"
      using split_nonempty [of d s] by (cases "split d s") auto
    from True cd sp Cons show ?thesis
      by (simp add: lstrip_Cons_space strip_Cons_space)
  next
    case False
    then show ?thesis by (simp add: lstrip_def)
  qed
qed

lemma map_strip_split_rstrip:
  "\<not> is_space d \<Longrightarrow> map strip (split d (rstrip s)) = map strip (split d s)"
proof (induction s rule: rev_induct)
  case Nil
  then show ?case by (simp add: rstrip_def)
next
  case (snoc c s)
  show ?case
  proof (cases "is_space c")
    case True
    with snoc.prems have cd: "c \<noteq> d" by auto
    have ne: "split d s \<noteq> []" by (rule split_nonempty)
    have "map strip (split d (s @ [c])) =
        map strip (butlast (split d s)) @ [strip (last (split d s) @ [c])]"
      using cd by (simp add: split_snoc)
    also have "\<dots> = map strip (butlast (split d s) @ [last (split d s)])"
      using True by (simp add: strip_snoc_space)
    also have "\<dots> = map strip (split d s)" using ne by simp
    finally show ?thesis using True snoc by (simp add: rstrip_snoc_space)
  next
    case False
    then show ?thesis by (simp add: rstrip_snoc_other)
  qed
qed

lemma split_csv_list_strip: "split_csv_list (strip s) = split_csv_list s"
proof -
  have c: "\<not> is_space CHR '',''" by (simp add: is_space_def)
  have "map strip (split CHR '','' (strip s)) = map strip (split CHR '','' s)"
    using map_strip_split_rstrip [OF c, of "lstrip s"] map_strip_split_lstrip [OF c, of s]
    by (simp add: strip_def [of s])
  then show ?thesis by (simp add: split_csv_list_def)
qed

lemma contains_comma_strip: "contains '','' (strip s) = contains '','' s"
proof -
  have c: "\<not> is_space CHR '',''" by (simp add: is_space_def)
  have "CHR '','' \<in> set (strip s) \<Longrightarrow> CHR '','' \<in> set s"
    unfolding strip_def rstrip_def lstrip_def
    by (auto dest!: set_dropWhileD)
  with c show ?thesis by (auto simp: contains_single mem_strip)
qed

text \<open>\<open>split\<close> is the one decomposition into comma-free strings, so the list of
  \<open>_split_csv_list\<close> holds exactly the pieces.\<close>

lemma join_on_split: "join_on d (split d s) = s"
proof (induction s)
  case Nil
  show ?case by simp
next
  case (Cons c s)
  obtain p ps where sp: "split d s = p # ps"
    using split_nonempty [of d s] by (cases "split d s") auto
  from Cons sp show ?case by (cases ps) auto
qed

lemma split_free: "\<forall>p\<in>set (split d s). d \<notin> set p"
proof (induction s)
  case Nil
  show ?case by simp
next
  case (Cons c s)
  obtain p ps where sp: "split d s = p # ps"
    using split_nonempty [of d s] by (cases "split d s") auto
  from Cons sp show ?case by auto
qed

lemma join_on_Cons: "ps \<noteq> [] \<Longrightarrow> join_on d (p # ps) = p @ d # join_on d ps"
  by (cases ps) simp_all

lemma split_unique:
  "ps \<noteq> [] \<Longrightarrow> \<forall>q\<in>set ps. d \<notin> set q \<Longrightarrow> join_on d ps = s \<Longrightarrow> ps = split d s"
proof (induction s arbitrary: ps)
  case Nil
  from Nil(1) obtain p rest where ps: "ps = p # rest" by (cases ps) auto
  show ?case
  proof (cases rest)
    case Nil
    with ps \<open>join_on d ps = []\<close> show ?thesis by simp
  next
    case (Cons q qs)
    with ps \<open>join_on d ps = []\<close> show ?thesis by simp
  qed
next
  case (Cons c s)
  from Cons.prems(1) obtain p rest where ps: "ps = p # rest" by (cases ps) auto
  from Cons.prems(2) ps have fp: "d \<notin> set p" and fr: "\<forall>q\<in>set rest. d \<notin> set q"
    by simp_all
  from Cons.prems(3) ps have j: "join_on d (p # rest) = c # s" by simp
  show ?case
  proof (cases p)
    case Nil
    have rne: "rest \<noteq> []"
    proof
      assume "rest = []"
      with j Nil show False by simp
    qed
    have e: "join_on d (p # rest) = d # join_on d rest"
      using Nil rne by (simp add: join_on_Cons)
    from j have "d # join_on d rest = c # s" unfolding e .
    then have cd: "c = d" and js: "join_on d rest = s" by auto
    from rne fr js have "rest = split d s" by (rule Cons.IH)
    then have "split d s = rest" by simp
    then show ?thesis by (simp add: ps Nil cd)
  next
    case (Cons a p')
    from fp Cons have ad: "a \<noteq> d" and fp': "d \<notin> set p'" by auto
    have e: "join_on d (p # rest) = a # join_on d (p' # rest)"
      using Cons by (cases rest) simp_all
    from j have "a # join_on d (p' # rest) = c # s" unfolding e .
    then have ac: "a = c" and js: "join_on d (p' # rest) = s" by auto
    have ne: "p' # rest \<noteq> []" by simp
    from fp' fr have fr': "\<forall>q\<in>set (p' # rest). d \<notin> set q" by simp
    from ne fr' js have "p' # rest = split d s" by (rule Cons.IH)
    then have "split d s = p' # rest" by simp
    then show ?thesis using ad by (simp add: ps Cons ac)
  qed
qed

lemma csv_pieces_split:
  "csv_pieces s = {strip p | p. strip p \<noteq> [] \<and> p \<in> set (split CHR '','' s)}"
proof -
  have "(\<exists>ps. ps \<noteq> [] \<and> (\<forall>q\<in>set ps. CHR '','' \<notin> set q) \<and>
              join_on CHR '','' ps = s \<and> p \<in> set ps) \<longleftrightarrow> p \<in> set (split CHR '','' s)" for p
  proof
    assume "\<exists>ps. ps \<noteq> [] \<and> (\<forall>q\<in>set ps. CHR '','' \<notin> set q) \<and>
              join_on CHR '','' ps = s \<and> p \<in> set ps"
    then obtain ps where 1: "ps \<noteq> []" and 2: "\<forall>q\<in>set ps. CHR '','' \<notin> set q"
      and 3: "join_on CHR '','' ps = s" and 4: "p \<in> set ps" by blast
    from 1 2 3 have "ps = split CHR '','' s" by (rule split_unique)
    with 4 show "p \<in> set (split CHR '','' s)" by simp
  next
    assume m: "p \<in> set (split CHR '','' s)"
    have "split CHR '','' s \<noteq> [] \<and> (\<forall>q\<in>set (split CHR '','' s). CHR '','' \<notin> set q) \<and>
        join_on CHR '','' (split CHR '','' s) = s \<and> p \<in> set (split CHR '','' s)"
      using m by (simp add: split_nonempty join_on_split split_free)
    then show "\<exists>ps. ps \<noteq> [] \<and> (\<forall>q\<in>set ps. CHR '','' \<notin> set q) \<and>
              join_on CHR '','' ps = s \<and> p \<in> set ps" by (rule exI)
  qed
  then show ?thesis by (simp only: csv_pieces_def)
qed

lemma set_split_csv_list: "set (split_csv_list s) = csv_pieces s"
proof -
  have "set (split_csv_list s) = {q \<in> strip ` set (split CHR '','' s). q \<noteq> []}"
    by (simp add: split_csv_list_def)
  also have "\<dots> = {strip p | p. strip p \<noteq> [] \<and> p \<in> set (split CHR '','' s)}"
    by auto
  finally show ?thesis by (simp only: csv_pieces_split)
qed

subsection \<open>Word-boundary search\<close>

lemma match_here_iff:
  "match_here u p t \<longleftrightarrow>
     (\<exists>post. t = u @ post \<and> boundary p (first_char (u @ post)) \<and>
        boundary (prev_char p u) (first_char post))"
  by (auto simp: match_here_def prefix_def prev_char_def)

lemma search_wb_iff:
  "search_wb u p t \<longleftrightarrow>
     (\<exists>pre post. t = pre @ u @ post \<and>
        boundary (prev_char p pre) (first_char (u @ post)) \<and>
        boundary (prev_char p (pre @ u)) (first_char post))"
proof (induction t arbitrary: p)
  case Nil
  show ?case by (auto simp: match_here_iff prev_char_def)
next
  case (Cons c cs)
  have shift: "prev_char p (c # xs) = prev_char (Some c) xs" for xs
    by (simp add: prev_char_def)
  show ?case
  proof
    assume "search_wb u p (c # cs)"
    then consider "match_here u p (c # cs)" | "search_wb u (Some c) cs" by auto
    then show "\<exists>pre post. c # cs = pre @ u @ post \<and>
        boundary (prev_char p pre) (first_char (u @ post)) \<and>
        boundary (prev_char p (pre @ u)) (first_char post)"
    proof cases
      case 1
      then obtain post where "c # cs = u @ post" "boundary p (first_char (u @ post))"
        "boundary (prev_char p u) (first_char post)" by (auto simp: match_here_iff)
      then have "c # cs = [] @ u @ post \<and>
        boundary (prev_char p []) (first_char (u @ post)) \<and>
        boundary (prev_char p ([] @ u)) (first_char post)" by (simp add: prev_char_def)
      then show ?thesis by blast
    next
      case 2
      then obtain pre post where "cs = pre @ u @ post"
        "boundary (prev_char (Some c) pre) (first_char (u @ post))"
        "boundary (prev_char (Some c) (pre @ u)) (first_char post)"
        using Cons.IH by blast
      then have "c # cs = (c # pre) @ u @ post \<and>
        boundary (prev_char p (c # pre)) (first_char (u @ post)) \<and>
        boundary (prev_char p ((c # pre) @ u)) (first_char post)"
        by (simp add: shift)
      then show ?thesis by blast
    qed
  next
    assume "\<exists>pre post. c # cs = pre @ u @ post \<and>
        boundary (prev_char p pre) (first_char (u @ post)) \<and>
        boundary (prev_char p (pre @ u)) (first_char post)"
    then obtain pre post where e: "c # cs = pre @ u @ post"
      and b1: "boundary (prev_char p pre) (first_char (u @ post))"
      and b2: "boundary (prev_char p (pre @ u)) (first_char post)" by blast
    show "search_wb u p (c # cs)"
    proof (cases pre)
      case Nil
      with e b1 b2 have "match_here u p (c # cs)"
        by (auto simp: match_here_iff prev_char_def)
      then show ?thesis by simp
    next
      case (Cons a pre')
      with e have c: "a = c" and cs: "cs = pre' @ u @ post" by simp_all
      from b1 b2 have "boundary (prev_char (Some c) pre') (first_char (u @ post))"
        "boundary (prev_char (Some c) (pre' @ u)) (first_char post)"
        by (simp_all add: Cons c shift)
      with cs have "search_wb u (Some c) cs" using Cons.IH by blast
      then show ?thesis by simp
    qed
  qed
qed

lemma re_search_b_iff: "re_search_b u t \<longleftrightarrow> whole_word_match u t"
  by (simp add: re_search_b_def search_wb_iff whole_word_match_def prev_char_def last_char_def)

lemma is_correct_option:
  "answer_option qa = Some opt \<Longrightarrow> opt \<noteq> [] \<Longrightarrow>
   is_correct ua qa cs = (strip ua \<noteq> [] \<and> upper (strip ua) = upper (strip opt))"
  by (simp add: is_correct_def truthy_def or_empty_def Let_def)

lemma normalize_strip: "normalize (strip s) = normalize s"
  by (simp add: normalize_def strip_strip)

lemma strip_empty: "strip [] = []"
  by (simp add: strip_def rstrip_def lstrip_def)

lemma normalize_empty: "normalize [] = []"
  by (simp add: normalize_def strip_empty lower_def)

lemma normalize_nonempty: "strip s \<noteq> [] \<Longrightarrow> normalize s \<noteq> []"
  by (cases "strip s") (simp_all add: normalize_def lower_def)

lemma is_correct_unfold:
  "is_correct ua qa cs =
     (strip ua \<noteq> [] \<and>
      (if truthy (answer_option qa)
       then upper (strip ua) = upper (strip (or_empty (answer_option qa)))
       else value_match (strip ua) qa cs \<or> phrase_match ua (answer_text qa) cs))"
  by (auto simp: is_correct_def value_match_def order_required_def set_match_def
      whole_match_def phrase_match_def Let_def re_search_b_iff normalize_strip not_less)

subsection \<open>Store and sampler\<close>

lemma upsert_row_same: "qnum (r::QA) = qnum q \<Longrightarrow>
  r\<lparr>question_text := question_text q, answer_text := answer_text q,
     answer_value := answer_value q, answer_option := answer_option q\<rparr> = q"
  by (cases r, cases q) simp


lemma set_qnum_upsert_row: "qnum ` set (upsert_row q db) = insert (qnum q) (qnum ` set db)"
  by (induction db) (auto simp: upsert_row_same)

lemma qnum_upsert_row:
  "map qnum (upsert_row q db) =
     (if qnum q \<in> set (map qnum db) then map qnum db else map qnum db @ [qnum q])"
  by (induction db) (auto simp: upsert_row_same)

lemma distinct_upsert_row:
  "distinct (map qnum db) \<Longrightarrow> distinct (map qnum (upsert_row q db))"
  by (simp add: qnum_upsert_row)


lemma distinct_upsert_questions:
  "distinct (map qnum db) \<Longrightarrow> distinct (map qnum (upsert_questions db R))"
  unfolding upsert_questions_def
  by (induction R arbitrary: db) (simp_all add: distinct_upsert_row)





lemma by_qnum_key: "by_qnum rows n = Some r \<Longrightarrow> qnum r = n"
  by (auto simp: by_qnum_def dest!: map_of_SomeD)

lemma by_qnum_present: "r \<in> set rows \<Longrightarrow> by_qnum rows (qnum r) \<noteq> None"
  by (simp add: by_qnum_def map_of_eq_None_iff image_image)

lemma ordered_qnum: "ordered (by_qnum rows) chosen = Inr rs \<Longrightarrow> map qnum rs = chosen"
  by (induction chosen arbitrary: rs) (auto split: option.splits sum.splits dest: by_qnum_key)

lemma ordered_total:
  "(\<And>n. n \<in> set chosen \<Longrightarrow> d n \<noteq> None) \<Longrightarrow> \<exists>rs. ordered d chosen = Inr rs"
  by (induction chosen) (auto split: option.splits sum.splits)

lemma load_success:
  assumes "sample_contract draw" "db \<noteq> []" "0 \<le> count" "count \<le> int (length db)"
  shows "\<exists>qs. load_random_questions draw e db count seed = Inr qs \<and> length qs = nat count"
proof -
  define s where "s = (case seed of Some v \<Rightarrow> v | None \<Rightarrow> e)"
  define chosen where "chosen = draw s (map qnum db) (nat count)"
  define rows where "rows = filter (\<lambda>r. qnum r \<in> set chosen) db"
  from assms have k: "nat count \<le> length (map qnum db)" by simp
  with assms(1) have len: "length chosen = nat count" and sub: "set chosen \<subseteq> set (map qnum db)"
    unfolding sample_contract_def chosen_def by blast+
  have "by_qnum rows n \<noteq> None" if "n \<in> set chosen" for n
  proof -
    from that sub obtain r where "r \<in> set db" "qnum r = n" by auto
    with that have "r \<in> set rows" by (simp add: rows_def)
    then show ?thesis using \<open>qnum r = n\<close> by_qnum_present by blast
  qed
  then obtain rs where rs: "ordered (by_qnum rows) chosen = Inr rs"
    using ordered_total by blast
  then have "length rs = nat count" using ordered_qnum [OF rs] len by (metis length_map)
  moreover have "load_random_questions draw e db count seed = Inr rs"
    using assms rs
    by (simp add: load_random_questions_def rng_sample_def Let_def s_def chosen_def rows_def)
  ultimately show ?thesis by blast
qed

lemma load_qnums:
  "load_random_questions draw e db count (Some S) = Inr qs \<Longrightarrow>
   map qnum qs = draw S (map qnum db) (nat count)"
  by (auto simp: load_random_questions_def rng_sample_def Let_def
      split: if_splits sum.splits dest: ordered_qnum)

subsection \<open>Blocks of a document\<close>

lemma q_from_Cons:
  "q_from n (l # ls) = (if is_q_marker l then n # q_from (Suc n) ls else q_from (Suc n) ls)"
  by (simp add: q_from_def)

lemma q_from_empty: "q_from n [] = []"
  by (simp add: q_from_def)

lemma q_from_hd:
  "q_from m ls = nxt # rest \<Longrightarrow> nxt = m + length (takeWhile (\<lambda>x. \<not> is_q_marker x) ls)"
proof (induction ls arbitrary: m)
  case Nil
  then show ?case by (simp add: q_from_empty)
next
  case (Cons a ls)
  show ?case
  proof (cases "is_q_marker a")
    case True
    with Cons.prems show ?thesis by (simp add: q_from_Cons)
  next
    case False
    with Cons.prems have "q_from (Suc m) ls = nxt # rest" by (simp add: q_from_Cons)
    then have "nxt = Suc m + length (takeWhile (\<lambda>x. \<not> is_q_marker x) ls)"
      by (rule Cons.IH)
    with False show ?thesis by simp
  qed
qed

lemma q_from_Nil:
  "q_from m ls = [] \<Longrightarrow> takeWhile (\<lambda>x. \<not> is_q_marker x) ls = ls"
  by (induction ls arbitrary: m) (auto simp: q_from_Cons q_from_empty split: if_splits)

lemma block_list_blocks:
  "block_list (pre @ paras) (q_from (length pre) paras) = blocks paras"
proof (induction paras arbitrary: pre)
  case Nil
  show ?case by (simp add: q_from_def)
next
  case (Cons l ls)
  have IH: "block_list (pre @ l # ls) (q_from (Suc (length pre)) ls) = blocks ls"
    using Cons [of "pre @ [l]"] by simp
  show ?case
  proof (cases "is_q_marker l")
    case False
    with IH show ?thesis by (simp add: q_from_Cons)
  next
    case True
    show ?thesis
    proof (cases "q_from (Suc (length pre)) ls")
      case Nil
      with IH have "blocks ls = []" by simp
      with Nil True show ?thesis
        by (simp add: q_from_Cons slice_def q_from_Nil)
    next
      case (Cons nxt rest)
      then have n: "nxt = Suc (length pre) + length (takeWhile (\<lambda>x. \<not> is_q_marker x) ls)"
        by (rule q_from_hd)
      have "slice (pre @ l # ls) (length pre) nxt = l # takeWhile (\<lambda>x. \<not> is_q_marker x) ls"
        by (simp add: slice_def n takeWhile_eq_take [symmetric])
      with Cons True IH show ?thesis by (simp add: q_from_Cons)
    qed
  qed
qed

lemma parse_docx_blocks:
  "parse_docx texts = List.map_filter parse_block (blocks (map rstrip texts))"
  using block_list_blocks [of "[]" "map rstrip texts"]
  by (simp add: parse_docx_def q_indices_def q_from_def Let_def)

lemma blocks_append:
  "ys = [] \<or> is_q_marker (hd ys) \<Longrightarrow> blocks (xs @ ys) = blocks xs @ blocks ys"
proof (induction xs)
  case Nil
  then show ?case by simp
next
  case (Cons l ls)
  from Cons.prems have tw: "takeWhile (\<lambda>x. \<not> is_q_marker x) ys = []"
    by (cases ys) auto
  have "takeWhile (\<lambda>x. \<not> is_q_marker x) (ls @ ys)
      = takeWhile (\<lambda>x. \<not> is_q_marker x) ls"
  proof (cases "\<forall>x\<in>set ls. \<not> is_q_marker x")
    case True
    then have e: "takeWhile (\<lambda>x. \<not> is_q_marker x) ls = ls" by simp
    have "takeWhile (\<lambda>x. \<not> is_q_marker x) (ls @ ys)
        = ls @ takeWhile (\<lambda>x. \<not> is_q_marker x) ys"
      using True by (simp add: takeWhile_append)
    also have "\<dots> = ls" by (simp add: tw)
    finally show ?thesis by (simp only: e)
  next
    case False
    then show ?thesis by (auto simp: takeWhile_append)
  qed
  with Cons show ?case by simp
qed

lemma blocks_single:
  "is_q_marker m \<Longrightarrow> \<forall>l\<in>set body. \<not> is_q_marker l \<Longrightarrow> blocks (m # body) = [m # body]"
proof -
  assume m: "is_q_marker m" and b: "\<forall>l\<in>set body. \<not> is_q_marker l"
  from b have "blocks body = []" by (induction body) auto
  moreover from b have "takeWhile (\<lambda>x. \<not> is_q_marker x) body = body" by simp
  ultimately show ?thesis using m by simp
qed

lemma map_filter_append: "List.map_filter f (xs @ ys) = List.map_filter f xs @ List.map_filter f ys"
  by (simp add: List.map_filter_def)

lemma parse_docx_split:
  assumes "is_q_marker (rstrip m)"
    and "\<forall>l\<in>set body. \<not> is_q_marker (rstrip l)"
    and "post = [] \<or> is_q_marker (rstrip (hd post))"
  shows "parse_docx (pre @ m # body @ post) =
     parse_docx pre @
     (case parse_block (map rstrip (m # body)) of None \<Rightarrow> [] | Some r \<Rightarrow> [r]) @
     parse_docx post"
proof -
  let ?r = "map rstrip"
  have p: "?r post = [] \<or> is_q_marker (hd (?r post))"
    using assms(3) by (cases post) auto
  have b: "\<forall>l\<in>set (?r body). \<not> is_q_marker l" using assms(2) by simp
  have 1: "blocks (?r (m # body) @ ?r post) = blocks (?r (m # body)) @ blocks (?r post)"
    using p by (rule blocks_append)
  have 2: "blocks (?r pre @ (?r (m # body) @ ?r post))
      = blocks (?r pre) @ blocks (?r (m # body) @ ?r post)"
    by (rule blocks_append) (simp add: assms(1))
  have 3: "blocks (?r (m # body)) = [?r (m # body)]"
    using blocks_single [OF assms(1) b] by simp
  have "?r (pre @ m # body @ post) = ?r pre @ (?r (m # body) @ ?r post)" by simp
  then have "blocks (?r (pre @ m # body @ post))
      = blocks (?r pre) @ [?r (m # body)] @ blocks (?r post)"
    using 1 2 3 by (simp only:)
  then show ?thesis
    by (simp add: parse_docx_blocks map_filter_append List.map_filter_simps split: option.splits)
qed

lemma first_index_at:
  "\<forall>x\<in>set xs. \<not> P x \<Longrightarrow> P y \<Longrightarrow> first_index P (xs @ y # ys) = Some (length xs)"
  by (simp add: first_index_def list_ex_iff takeWhile_append)

lemma first_index_none: "\<forall>x\<in>set xs. \<not> P x \<Longrightarrow> first_index P xs = None"
  by (simp add: first_index_def list_ex_iff)

lemma parse_block_none:
  "\<forall>l\<in>set block. \<not> contains marker l \<Longrightarrow> parse_block block = None"
  by (simp add: parse_block_def first_index_none split: list.splits option.splits)

lemma parse_block_some:
  assumes "Q_MARKER_RE (strip b0) = Some (num, tot)"
    and "\<exists>l\<in>set (b0 # rest). contains marker l"
  shows "\<exists>r. parse_block (b0 # rest) = Some r \<and> qnum r = int num"
proof -
  from assms(2) obtain j where "first_index (contains marker) (b0 # rest) = Some j"
    by (auto simp: first_index_def list_ex_iff)
  with assms(1) show ?thesis by (simp add: parse_block_def Let_def)
qed

lemma parse_block_shape:
  assumes "Q_MARKER_RE (strip m) = Some (num, tot)"
    and "\<forall>l\<in>set (m # qs). \<not> contains marker l"
    and "contains marker ml"
  shows "parse_block (m # qs @ ml # as) =
     Some \<lparr>qnum = int num,
           question_text = segment_text qs,
           answer_text = segment_text (cut_separator (answer_segment ml as)),
           answer_value = fst (derive_keys (pop_blank (cut_separator (answer_segment ml as)))),
           answer_option = snd (derive_keys (pop_blank (cut_separator (answer_segment ml as))))\<rparr>"
proof -
  have fi: "first_index (contains marker) (m # qs @ ml # as) = Some (Suc (length qs))"
    using first_index_at [of "m # qs" "contains marker" ml as] assms(2,3) by simp
  have q: "slice (m # qs @ ml # as) (Suc 0) (Suc (length qs)) = qs"
    by (simp add: slice_def)
  have ml: "(m # qs @ ml # as) ! Suc (length qs) = ml"
    by (simp add: nth_append)
  show ?thesis
    unfolding parse_block_def
    by (simp add: assms(1,3) fi q ml Let_def segment_text_def cut_separator_def
        answer_segment_def nth_append)
qed

lemma pop_blank_eq: "pop_blank ls = drop_trailing_blank ls"
proof (induction ls rule: rev_induct)
  case Nil
  show ?case by (simp add: pop_blank.simps drop_trailing_blank_def)
next
  case (snoc x xs)
  then show ?case
    by (subst pop_blank.simps) (simp add: drop_trailing_blank_def is_blank_def)
qed

lemma cut_separator_at:
  assumes "is_separator sep"
  shows "cut_separator (xs @ sep # ys) = cut_separator xs"
proof (cases "list_ex is_separator xs")
  case True
  then have ex: "\<exists>x\<in>set xs. is_separator x" by (simp add: list_ex_iff)
  then have tw: "takeWhile (\<lambda>x. \<not> is_separator x) (xs @ sep # ys)
      = takeWhile (\<lambda>x. \<not> is_separator x) xs"
    by (auto simp: takeWhile_append)
  have le: "length (takeWhile (\<lambda>x. \<not> is_separator x) xs) \<le> length xs"
    by (rule length_takeWhile_le)
  from ex have f1: "first_index is_separator (xs @ sep # ys)
      = Some (length (takeWhile (\<lambda>x. \<not> is_separator x) xs))"
    by (auto simp: first_index_def list_ex_iff tw)
  from ex have f2: "first_index is_separator xs
      = Some (length (takeWhile (\<lambda>x. \<not> is_separator x) xs))"
    by (auto simp: first_index_def list_ex_iff)
  from le show ?thesis by (simp add: cut_separator_def f1 f2)
next
  case False
  then have no: "\<forall>x\<in>set xs. \<not> is_separator x" by (simp add: list_ex_iff)
  from no assms have "first_index is_separator (xs @ sep # ys) = Some (length xs)"
    by (rule first_index_at)
  moreover from no have "first_index is_separator xs = None" by (rule first_index_none)
  ultimately show ?thesis by (simp add: cut_separator_def)
qed

lemma cut_separator_prefix: "prefix (cut_separator xs) xs"
  by (simp add: cut_separator_def take_is_prefix split: option.splits)

lemma cut_separator_id: "\<forall>l\<in>set xs. \<not> is_separator l \<Longrightarrow> cut_separator xs = xs"
  by (simp add: cut_separator_def first_index_none)

lemma is_separator_iff:
  "is_separator l \<longleftrightarrow> (\<exists>n. 10 < n \<and> strip l = replicate n CHR ''='')"
proof
  assume "is_separator l"
  then have s: "set (strip l) = {CHR ''=''}" and n: "10 < length (strip l)"
    by (simp_all add: is_separator_def)
  from s have "strip l = replicate (length (strip l)) CHR ''=''"
    by (metis replicate_length_same singletonD)
  with n show "\<exists>n. 10 < n \<and> strip l = replicate n CHR ''=''" by blast
next
  assume "\<exists>n. 10 < n \<and> strip l = replicate n CHR ''=''"
  then show "is_separator l" by (auto simp: is_separator_def)
qed

subsection \<open>Stored text of a segment\<close>

lemma strip_Nil_all_space: "strip l = [] \<Longrightarrow> \<forall>c\<in>set l. is_space c"
proof -
  assume "strip l = []"
  then have a: "\<forall>c\<in>set (dropWhile is_space l). is_space c"
    by (simp add: strip_def rstrip_def lstrip_def dropWhile_eq_Nil_conv)
  have "dropWhile is_space l = []"
  proof (rule ccontr)
    assume ne: "dropWhile is_space l \<noteq> []"
    then have "\<not> is_space (hd (dropWhile is_space l))" by (rule hd_dropWhile)
    moreover from ne have "hd (dropWhile is_space l) \<in> set (dropWhile is_space l)" by simp
    ultimately show False using a by blast
  qed
  then show ?thesis by (simp add: dropWhile_eq_Nil_conv)
qed

lemma rev_split: "xs = rev (dropWhile P (rev xs)) @ rev (takeWhile P (rev xs))"
  by (metis rev_append rev_rev_ident takeWhile_dropWhile_id)

lemma join_nl_append:
  "xs \<noteq> [] \<Longrightarrow> ys \<noteq> [] \<Longrightarrow> join_nl (xs @ ys) = join_nl xs @ nl # join_nl ys"
proof (induction xs rule: join_nl.induct)
  case 1
  then show ?case by simp
next
  case (2 l)
  then show ?case by (cases ys) simp_all
next
  case (3 l m ls)
  then show ?case by simp
qed

lemma is_space_nl: "is_space nl"
  by (simp add: is_space_def nl_def)

lemma join_nl_blank:
  "\<forall>l\<in>set ls. is_blank l \<Longrightarrow> \<forall>c\<in>set (join_nl ls). is_space c"
  by (induction ls rule: join_nl.induct)
    (auto simp: is_blank_def is_space_nl dest: strip_Nil_all_space)

lemma drop_trailing_blank_split:
  "\<exists>tail. ls = drop_trailing_blank ls @ tail \<and> (\<forall>l\<in>set tail. is_blank l)"
proof -
  have "ls = drop_trailing_blank ls @ rev (takeWhile is_blank (rev ls))"
    unfolding drop_trailing_blank_def by (rule rev_split)
  moreover have "\<forall>l\<in>set (rev (takeWhile is_blank (rev ls))). is_blank l"
    by (auto dest: set_takeWhileD)
  ultimately show ?thesis by blast
qed

lemma join_nl_trailing:
  "\<exists>suf. join_nl ls = join_nl (drop_trailing_blank ls) @ suf \<and> (\<forall>c\<in>set suf. is_space c)"
proof -
  obtain tail where ls: "ls = drop_trailing_blank ls @ tail" and b: "\<forall>l\<in>set tail. is_blank l"
    using drop_trailing_blank_split by blast
  let ?k = "drop_trailing_blank ls"
  have sp: "\<forall>c\<in>set (join_nl tail). is_space c" using b by (rule join_nl_blank)
  consider "?k = []" | "tail = []" | "?k \<noteq> []" "tail \<noteq> []" by blast
  then have "\<exists>suf. join_nl (?k @ tail) = join_nl ?k @ suf \<and> (\<forall>c\<in>set suf. is_space c)"
  proof cases
    case 1
    with sp show ?thesis by simp
  next
    case 2
    then show ?thesis by simp
  next
    case 3
    then have "join_nl (?k @ tail) = join_nl ?k @ (nl # join_nl tail)"
      by (rule join_nl_append)
    moreover have "\<forall>c\<in>set (nl # join_nl tail). is_space c" using sp by (simp add: is_space_nl)
    ultimately show ?thesis by blast
  qed
  with ls show ?thesis by simp
qed

lemma strip_nl_split:
  "\<exists>pre suf. t = pre @ strip_nl t @ suf \<and> (\<forall>c\<in>set pre. c = nl) \<and> (\<forall>c\<in>set suf. c = nl)"
proof -
  let ?P = "\<lambda>c. c = nl"
  let ?d = "dropWhile ?P t"
  have 1: "t = takeWhile ?P t @ ?d" by simp
  have 2: "?d = strip_nl t @ rev (takeWhile ?P (rev ?d))"
    unfolding strip_nl_def by (rule rev_split)
  have "t = takeWhile ?P t @ strip_nl t @ rev (takeWhile ?P (rev ?d))"
    using 1 2 by (metis)
  moreover have "\<forall>c\<in>set (takeWhile ?P t). c = nl" by (auto dest: set_takeWhileD)
  moreover have "\<forall>c\<in>set (rev (takeWhile ?P (rev ?d))). c = nl" by (auto dest: set_takeWhileD)
  ultimately show ?thesis by blast
qed

lemma segment_text_kept: "kept_verbatim (join_nl ls) (segment_text ls)"
proof -
  let ?j = "join_nl (drop_trailing_blank ls)"
  obtain suf where 1: "join_nl ls = ?j @ suf" and s: "\<forall>c\<in>set suf. is_space c"
    using join_nl_trailing by blast
  obtain pre suf' where 2: "?j = pre @ strip_nl ?j @ suf'"
    and p: "\<forall>c\<in>set pre. c = nl" and s': "\<forall>c\<in>set suf'. c = nl"
    using strip_nl_split by blast
  have t: "segment_text ls = strip_nl ?j" by (simp add: segment_text_def pop_blank_eq)
  from 1 2 have "join_nl ls = pre @ segment_text ls @ (suf' @ suf)" by (simp add: t)
  moreover from s s' have "\<forall>c\<in>set (suf' @ suf). is_space c" by (auto simp: is_space_nl)
  ultimately show ?thesis using p unfolding kept_verbatim_def by blast
qed

section \<open>Grading claims\<close>

text \<open>
  On records whose option is a trimmed, non-empty string, a single uppercase letter
  among them, the verdict is the comparison of the two uppercased strings.
\<close>

lemma is_correct_option_trimmed:
  "answer_option qa = Some opt \<Longrightarrow> opt \<noteq> [] \<Longrightarrow> strip opt = opt \<Longrightarrow>
   is_correct ua qa cs = (upper (strip ua) = upper opt)"
  by (auto simp: is_correct_option upper_def)

text \<open>
  The two gradings of the repository differ: the older one accepts the value spelled
  out although an option letter is stored, and its fallback accepts a two-letter
  fragment of a word.
\<close>

lemma grading_fork_example:
  "is_correct_cli ''DHCP'' \<lparr>qnum = 1, question_text = ''q'', answer_text = ''a'',
      answer_value = Some ''DHCP'', answer_option = Some ''C''\<rparr> False \<and>
   \<not> is_correct ''DHCP'' \<lparr>qnum = 1, question_text = ''q'', answer_text = ''a'',
      answer_value = Some ''DHCP'', answer_option = Some ''C''\<rparr> False \<and>
   is_correct_cli ''ab'' \<lparr>qnum = 1, question_text = ''q'', answer_text = ''cab'',
      answer_value = None, answer_option = None\<rparr> True \<and>
   \<not> is_correct ''ab'' \<lparr>qnum = 1, question_text = ''q'', answer_text = ''cab'',
      answer_value = None, answer_option = None\<rparr> True"
  by code_simp




text \<open>
  Claim C2. For every record with \<open>answer_option\<close> unset, when the user answer is not
  blank and the comparison with \<open>answer_value\<close> gives no verdict, \<open>is_correct\<close>
  returns true if and only if the user answer, trimmed in case-sensitive mode and
  normalized otherwise, has at least three characters and occurs in \<open>answer_text\<close>
  (normalized as well when case is ignored) with a word boundary at both ends. An
  answer of fewer than three characters is therefore graded incorrect.
\<close>

theorem is_correct_fallback:
  assumes "\<not> truthy (answer_option qa)"
    and "strip ua \<noteq> []"
    and "\<not> value_match (strip ua) qa cs"
  shows "is_correct ua qa cs =
     (if cs
      then 3 \<le> length (strip ua) \<and> whole_word_match (strip ua) (answer_text qa)
      else 3 \<le> length (normalize ua) \<and>
           whole_word_match (normalize ua) (normalize (answer_text qa)))"
  using assms by (simp add: is_correct_unfold phrase_match_def)

theorem is_correct_fallback_witness:
  "is_correct ''mac'' \<lparr>qnum = 1, question_text = ''q'',
      answer_text = ''frames are forwarded by MAC address'',
      answer_value = None, answer_option = None\<rparr> False \<and>
   whole_word_match (normalize ''mac'') (normalize ''frames are forwarded by MAC address'') \<and>
   \<not> is_correct ''ma'' \<lparr>qnum = 1, question_text = ''q'',
      answer_text = ''the ma'', answer_value = None, answer_option = None\<rparr> True"
proof -
  let ?qa = "\<lparr>qnum = 1, question_text = ''q'',
      answer_text = ''frames are forwarded by MAC address'',
      answer_value = None, answer_option = None\<rparr>"
  let ?qb = "\<lparr>qnum = 1, question_text = ''q'',
      answer_text = ''the ma'', answer_value = None, answer_option = None\<rparr>"
  have a: "\<not> truthy (answer_option ?qa)" "\<not> truthy (answer_option ?qb)"
    by (simp_all add: truthy_def)
  have b: "strip ''mac'' \<noteq> []" "strip ''ma'' \<noteq> []" by code_simp+
  have c: "\<not> value_match (strip ''mac'') ?qa False" "\<not> value_match (strip ''ma'') ?qb True"
    by (simp_all add: value_match_def truthy_def)
  have l: "\<not> 3 \<le> length (strip ''ma'')" by code_simp
  have t: "is_correct ''mac'' ?qa False" by code_simp
  from is_correct_fallback [OF a(1) b(1) c(1)] t
  have 1: "whole_word_match (normalize ''mac'') (normalize (answer_text ?qa))" by simp
  from is_correct_fallback [OF a(2) b(2) c(2)] l
  have 2: "\<not> is_correct ''ma'' ?qb True" by simp
  from t 1 2 show ?thesis by simp
qed

text \<open>
  Claim C5. For every record with \<open>answer_option\<close> unset and \<open>answer_value\<close> set: if
  the question text contains neither ordering phrase and both \<open>answer_value\<close> and
  the user answer contain a comma, then \<open>is_correct\<close> returns true whenever the
  pieces of the two, the strings between the commas, trimmed and with the empty ones
  dropped, are equal as sets, the pieces being normalized first when case is ignored;
  under the same conditions the verdict is that of the set comparison, of the
  whole-string comparison and of the fallback, and nothing else. If the question text
  contains an ordering phrase, the set comparison plays no part: the verdict is that of
  the whole-string comparison and of the fallback.
\<close>

theorem is_correct_list_answer:
  assumes "\<not> truthy (answer_option qa)"
    and "answer_value qa = Some av"
  shows "(\<not> order_required qa \<and> contains '','' av \<and> contains '','' ua \<and>
          (if cs then csv_pieces ua = csv_pieces av
           else normalize ` csv_pieces ua = normalize ` csv_pieces av)
          \<longrightarrow> is_correct ua qa cs) \<and>
         (\<not> order_required qa \<and> contains '','' av \<and> contains '','' ua \<longrightarrow>
            is_correct ua qa cs =
              ((if cs then csv_pieces ua = csv_pieces av
                else normalize ` csv_pieces ua = normalize ` csv_pieces av) \<or>
               whole_match (strip ua) av cs \<or> phrase_match ua (answer_text qa) cs)) \<and>
         (order_required qa \<longrightarrow>
            is_correct ua qa cs =
              (strip ua \<noteq> [] \<and>
               (whole_match (strip ua) av cs \<or> phrase_match ua (answer_text qa) cs)))"
proof (cases "av = []")
  case True
  have "\<not> whole_match (strip ua) [] cs" if "strip ua \<noteq> []"
    using that normalize_nonempty [of ua]
    by (simp add: whole_match_def normalize_strip strip_empty normalize_empty)
  with True assms show ?thesis
    by (auto simp: is_correct_unfold value_match_def truthy_def)
next
  case False
  have ne: "contains '','' ua \<Longrightarrow> strip ua \<noteq> []"
    using contains_comma_strip [of ua] by (cases "strip ua") auto
  have sm: "set_match (strip ua) av cs =
      (if cs then csv_pieces ua = csv_pieces av
       else normalize ` csv_pieces ua = normalize ` csv_pieces av)"
    by (simp add: set_match_def Let_def split_csv_list_strip set_split_csv_list)
  show ?thesis
    using assms False ne
    by (auto simp: is_correct_unfold value_match_def sm truthy_def or_empty_def
        Let_def contains_comma_strip)
qed

theorem is_correct_list_answer_witness:
  "is_correct ''red, blue,'' \<lparr>qnum = 1, question_text = ''Name the two colors'',
      answer_text = ''a'', answer_value = Some ''Blue, Red'', answer_option = None\<rparr> False \<and>
   \<not> is_correct ''x, y'' \<lparr>qnum = 1, question_text = ''Name the two colors'',
      answer_text = ''a'', answer_value = Some ''Blue, Red'', answer_option = None\<rparr> False \<and>
   \<not> is_correct ''red, blue'' \<lparr>qnum = 1,
      question_text = ''Name the two colors in alphabetical order'',
      answer_text = ''a'', answer_value = Some ''Blue, Red'', answer_option = None\<rparr> False"
proof -
  let ?qa = "\<lparr>qnum = 1, question_text = ''Name the two colors'',
      answer_text = ''a'', answer_value = Some ''Blue, Red'', answer_option = None\<rparr>"
  let ?qb = "\<lparr>qnum = 1, question_text = ''Name the two colors in alphabetical order'',
      answer_text = ''a'', answer_value = Some ''Blue, Red'', answer_option = None\<rparr>"
  have a: "\<not> truthy (answer_option ?qa)" "\<not> truthy (answer_option ?qb)"
    by (simp_all add: truthy_def)
  have v: "answer_value ?qa = Some ''Blue, Red''" "answer_value ?qb = Some ''Blue, Red''"
    by simp_all
  have o: "\<not> order_required ?qa" "order_required ?qb" by code_simp+
  have c: "contains '','' ''Blue, Red''" "contains '','' ''red, blue,''"
    "contains '','' ''x, y''" by code_simp+
  have s: "normalize ` csv_pieces ''red, blue,'' = normalize ` csv_pieces ''Blue, Red''"
  proof -
    have "set (map normalize (split_csv_list ''red, blue,''))
        = set (map normalize (split_csv_list ''Blue, Red''))" by code_simp
    then show ?thesis by (simp add: set_split_csv_list)
  qed
  have d: "normalize ` csv_pieces ''x, y'' \<noteq> normalize ` csv_pieces ''Blue, Red''"
  proof -
    have "set (map normalize (split_csv_list ''x, y''))
        \<noteq> set (map normalize (split_csv_list ''Blue, Red''))" by code_simp
    then show ?thesis by (simp add: set_split_csv_list)
  qed
  have w: "\<not> whole_match (strip ''red, blue'') ''Blue, Red'' False"
    "\<not> whole_match (strip ''x, y'') ''Blue, Red'' False" by code_simp+
  have p: "\<not> phrase_match ''red, blue'' (answer_text ?qb) False"
    "\<not> phrase_match ''x, y'' (answer_text ?qa) False"
    unfolding phrase_match_def re_search_b_iff [symmetric] by code_simp+
  from is_correct_list_answer [OF a(1) v(1), of "''red, blue,''" False] o(1) c s
  have 1: "is_correct ''red, blue,'' ?qa False" by simp
  from is_correct_list_answer [OF a(1) v(1), of "''x, y''" False] o(1) c d w(2) p(2)
  have 2: "\<not> is_correct ''x, y'' ?qa False" by simp
  from is_correct_list_answer [OF a(2) v(2), of "''red, blue''" False] o(2) w(1) p(1)
  have 3: "\<not> is_correct ''red, blue'' ?qb False" by simp
  from 1 2 3 show ?thesis by simp
qed

section \<open>Parser claims\<close>

text \<open>
  Claim C3 as it is written lets the parser remove trailing blank lines only. The
  joined text is also stripped of newline characters at both ends, so an empty line
  at the head of the question segment is not stored.
\<close>

theorem parse_docx_leading_blank_counterexample:
  "map question_text (parse_docx [''Question 1 of 1'', '''', ''What?'', ''[+] Answer> x''])
     = [''What?''] \<and>
   join_nl (drop_trailing_blank ['''', ''What?'']) \<noteq> ''What?''"
  by code_simp

text \<open>
  Claim C3, amended. For every well-formed block, a marker line, question lines
  without the answer marker, the answer-marker line and the lines after it,
  \<open>question_text\<close> and \<open>answer_text\<close> are the segment without its trailing blank
  lines, joined with newlines and stripped of newline characters at both ends. Each
  stored text is therefore the joined segment without a prefix of newline characters,
  the leading empty lines among them, and without a suffix of whitespace; the interior
  blank lines and all other whitespace between are kept character by character.
\<close>

theorem parse_block_texts:
  assumes "Q_MARKER_RE (strip m) = Some (num, tot)"
    and "\<forall>l\<in>set (m # qs). \<not> contains marker l"
    and "contains marker ml"
  shows "\<exists>r. parse_block (m # qs @ ml # as) = Some r \<and>
     question_text r = strip_nl (join_nl (drop_trailing_blank qs)) \<and>
     answer_text r =
       strip_nl (join_nl (drop_trailing_blank (cut_separator (answer_segment ml as)))) \<and>
     kept_verbatim (join_nl qs) (question_text r) \<and>
     kept_verbatim (join_nl (cut_separator (answer_segment ml as))) (answer_text r)"
proof -
  have t: "segment_text ls = strip_nl (join_nl (drop_trailing_blank ls))" for ls
    by (simp add: segment_text_def pop_blank_eq)
  show ?thesis
    using parse_block_shape [OF assms, of as] segment_text_kept [of qs]
      segment_text_kept [of "cut_separator (answer_segment ml as)"]
    by (simp add: t)
qed

theorem parse_block_texts_witness:
  "map_option (\<lambda>r. (question_text r, answer_text r))
     (parse_block [''Question 1 of 1'', '''', ''What?'', '' A - x'', '''', ''B - y'', '''',
        ''[+] Answer>  the answer'', '''', ''is x'', '''']) =
   Some (''What?'' @ nl # '' A - x'' @ nl # nl # ''B - y'',
         ''  the answer'' @ nl # nl # ''is x'')"
proof -
  have 1: "Q_MARKER_RE (strip ''Question 1 of 1'') = Some (1, 1)" by code_simp
  have 2: "\<forall>l\<in>set [''Question 1 of 1'', '''', ''What?'', '' A - x'', '''', ''B - y'', ''''].
      \<not> contains marker l" by code_simp
  have 3: "contains marker ''[+] Answer>  the answer''" by code_simp
  have q: "strip_nl (join_nl (drop_trailing_blank ['''', ''What?'', '' A - x'', '''', ''B - y'', '''']))
      = ''What?'' @ nl # '' A - x'' @ nl # nl # ''B - y''" by code_simp
  have a: "strip_nl (join_nl (drop_trailing_blank
        (cut_separator (answer_segment ''[+] Answer>  the answer'' ['''', ''is x'', '''']))))
      = ''  the answer'' @ nl # nl # ''is x''" by code_simp
  from parse_block_texts [OF 1 2 3, of "['''', ''is x'', '''']"] q a
  show ?thesis by auto
qed

text \<open>
  Claim C6. In a well-formed block, let a line of the answer segment consist of
  \<open>=\<close> characters only, three or more, with a stripped length above 10, and let
  \<open>xs\<close> be the lines of the segment before it. Then \<open>answer_text\<close> is the stored
  text of \<open>xs\<close> cut at its own first separator line: a prefix of \<open>xs\<close>, and \<open>xs\<close>
  itself when the line is the first separator. Neither the line nor anything after it
  takes part.
\<close>

theorem parse_block_separator:
  assumes "Q_MARKER_RE (strip m) = Some (num, tot)"
    and "\<forall>l\<in>set (m # qs). \<not> contains marker l"
    and "contains marker ml"
    and "answer_segment ml as = xs @ sep # ys"
    and "\<exists>n. 3 \<le> n \<and> strip sep = replicate n CHR ''=''"
    and "10 < length (strip sep)"
  shows "\<exists>r. parse_block (m # qs @ ml # as) = Some r \<and>
     answer_text r = segment_text (cut_separator xs) \<and>
     prefix (cut_separator xs) xs \<and>
     ((\<forall>l\<in>set xs. \<not> is_separator l) \<longrightarrow> answer_text r = segment_text xs)"
proof -
  from assms(5,6) have "is_separator sep" by (auto simp: is_separator_iff)
  then have "cut_separator (answer_segment ml as) = cut_separator xs"
    unfolding assms(4) by (rule cut_separator_at)
  then show ?thesis
    using parse_block_shape [OF assms(1-3), of as] cut_separator_prefix [of xs]
    by (auto simp: cut_separator_id)
qed

theorem parse_block_separator_witness:
  "map_option answer_text
     (parse_block [''Question 1 of 1'', ''What?'', ''[+] Answer> a'', ''b'', '''',
        ''==========='', ''Section 2'', ''intro'']) =
   Some ('' a'' @ nl # ''b'')"
proof -
  have 1: "Q_MARKER_RE (strip ''Question 1 of 1'') = Some (1, 1)" by code_simp
  have 2: "\<forall>l\<in>set [''Question 1 of 1'', ''What?'']. \<not> contains marker l" by code_simp
  have 3: "contains marker ''[+] Answer> a''" by code_simp
  have 4: "answer_segment ''[+] Answer> a'' [''b'', '''', ''==========='', ''Section 2'', ''intro'']
      = ['' a'', ''b'', ''''] @ ''==========='' # [''Section 2'', ''intro'']" by code_simp
  have s: "strip ''==========='' = replicate 11 CHR ''=''" by code_simp
  then have 5: "\<exists>n. 3 \<le> n \<and> strip ''==========='' = replicate n CHR ''=''"
    by (intro exI [of _ 11]) simp
  have 6: "10 < length (strip ''==========='')" by code_simp
  have n: "\<forall>l\<in>set ['' a'', ''b'', '''']. \<not> is_separator l" by code_simp
  have t: "segment_text ['' a'', ''b'', ''''] = '' a'' @ nl # ''b''" by code_simp
  from parse_block_separator [OF 1 2 3 4 5 6] n t
  show ?thesis by auto
qed

text \<open>
  Claim C7. Let a document hold a block that begins with a question-marker line \<open>m\<close>
  and runs over the lines \<open>body\<close> up to the next marker line or the end. If no line
  of the block contains the answer marker, the output of \<open>parse_docx\<close> is the records
  of the lines before the block followed by the records of the lines after it: the
  block gives no record, and the other blocks give theirs in document order. If some
  line of the block contains the answer marker, exactly one record, numbered by the
  marker line, stands between the two.
\<close>

theorem parse_docx_skips_block:
  assumes "Q_MARKER_RE (strip (rstrip m)) = Some (num, tot)"
    and "\<forall>l\<in>set body. \<not> is_q_marker (rstrip l)"
    and "post = [] \<or> is_q_marker (rstrip (hd post))"
  shows "((\<forall>l\<in>set (m # body). \<not> contains marker (rstrip l)) \<longrightarrow>
            parse_docx (pre @ m # body @ post) = parse_docx pre @ parse_docx post) \<and>
         ((\<exists>l\<in>set (m # body). contains marker (rstrip l)) \<longrightarrow>
            (\<exists>r. qnum r = int num \<and>
               parse_docx (pre @ m # body @ post) = parse_docx pre @ [r] @ parse_docx post))"
proof -
  from assms(1) have mk: "is_q_marker (rstrip m)" by (simp add: is_q_marker_def)
  note split = parse_docx_split [OF mk assms(2,3), of pre]
  show ?thesis
  proof (intro conjI impI)
    assume "\<forall>l\<in>set (m # body). \<not> contains marker (rstrip l)"
    then have "\<forall>l\<in>set (map rstrip (m # body)). \<not> contains marker l" by simp
    then have "parse_block (map rstrip (m # body)) = None" by (rule parse_block_none)
    with split show "parse_docx (pre @ m # body @ post) = parse_docx pre @ parse_docx post"
      by simp
  next
    assume "\<exists>l\<in>set (m # body). contains marker (rstrip l)"
    then have "\<exists>l\<in>set (rstrip m # map rstrip body). contains marker l" by simp
    with assms(1) obtain r where "parse_block (rstrip m # map rstrip body) = Some r"
      and "qnum r = int num"
      using parse_block_some by blast
    with split show "\<exists>r. qnum r = int num \<and>
        parse_docx (pre @ m # body @ post) = parse_docx pre @ [r] @ parse_docx post"
      by simp
  qed
qed

theorem parse_docx_skips_block_witness:
  "map qnum (parse_docx [''title'', ''Question 1 of 3'', ''Q1'', ''[+] Answer> a1'',
      ''Question 2 of 3  '', ''Q2 has no answer'', ''Question 3 of 3'', ''Q3'',
      ''[+] Answer> a3'']) = [1, 3]"
proof -
  let ?pre = "[''title'', ''Question 1 of 3'', ''Q1'', ''[+] Answer> a1'']"
  let ?post = "[''Question 3 of 3'', ''Q3'', ''[+] Answer> a3'']"
  have 1: "Q_MARKER_RE (strip (rstrip ''Question 2 of 3  '')) = Some (2, 3)" by code_simp
  have 2: "\<forall>l\<in>set [''Q2 has no answer'']. \<not> is_q_marker (rstrip l)" by code_simp
  have 3: "?post = [] \<or> is_q_marker (rstrip (hd ?post))" by code_simp
  have 4: "\<forall>l\<in>set [''Question 2 of 3  '', ''Q2 has no answer'']. \<not> contains marker (rstrip l)"
    by code_simp
  have p: "map qnum (parse_docx ?pre) = [1]" by code_simp
  have q: "map qnum (parse_docx ?post) = [3]" by code_simp
  from parse_docx_skips_block [OF 1 2 3, of ?pre] 4
  have "parse_docx (?pre @ ''Question 2 of 3  '' # [''Q2 has no answer''] @ ?post)
      = parse_docx ?pre @ parse_docx ?post" by blast
  then have "map qnum (parse_docx (?pre @ ''Question 2 of 3  '' # [''Q2 has no answer''] @ ?post))
      = [1, 3]" using p q by simp
  then show ?thesis by simp
qed

section \<open>Store and sampler claims\<close>



text \<open>
  Claim C4. For every store, integer seed and count: two calls of
  \<open>load_random_questions\<close> that succeed with the same seed, the same count and the
  same store return the same sequence of \<open>qnum\<close>s, in order. It is the draw of the
  generator for that seed from the column of \<open>qnum\<close>s, whatever entropy the operating
  system would have supplied to an unseeded call.
\<close>

theorem load_random_questions_deterministic:
  assumes "load_random_questions draw e1 db count (Some S) = Inr qs1"
    and "load_random_questions draw e2 db count (Some S) = Inr qs2"
  shows "map qnum qs1 = map qnum qs2 \<and> map qnum qs1 = draw S (map qnum db) (nat count)"
  using load_qnums [OF assms(1)] load_qnums [OF assms(2)] by simp

theorem load_random_questions_deterministic_witness:
  "load_random_questions (\<lambda>s p k. take k (rev p)) 0
     [\<lparr>qnum = 10, question_text = ''q1'', answer_text = ''a1'',
        answer_value = None, answer_option = None\<rparr>,
      \<lparr>qnum = 20, question_text = ''q2'', answer_text = ''a2'',
        answer_value = Some ''v'', answer_option = Some ''B''\<rparr>,
      \<lparr>qnum = 30, question_text = ''q3'', answer_text = ''a3'',
        answer_value = None, answer_option = None\<rparr>] 2 (Some 7) =
   Inr [\<lparr>qnum = 30, question_text = ''q3'', answer_text = ''a3'',
        answer_value = None, answer_option = None\<rparr>,
      \<lparr>qnum = 20, question_text = ''q2'', answer_text = ''a2'',
        answer_value = Some ''v'', answer_option = Some ''B''\<rparr>] \<and>
   map qnum
     [\<lparr>qnum = 30, question_text = ''q3'', answer_text = ''a3'',
        answer_value = None, answer_option = None\<rparr>,
      \<lparr>qnum = 20, question_text = ''q2'', answer_text = ''a2'',
        answer_value = Some ''v'', answer_option = Some ''B''\<rparr>] = [30, 20]"
proof -
  let ?draw = "\<lambda>(s::int) (p::int list) (k::nat). take k (rev p)"
  let ?r1 = "\<lparr>qnum = 10, question_text = ''q1'', answer_text = ''a1'',
        answer_value = None, answer_option = None\<rparr>"
  let ?r2 = "\<lparr>qnum = 20, question_text = ''q2'', answer_text = ''a2'',
        answer_value = Some ''v'', answer_option = Some ''B''\<rparr>"
  let ?r3 = "\<lparr>qnum = 30, question_text = ''q3'', answer_text = ''a3'',
        answer_value = None, answer_option = None\<rparr>"
  have 1: "load_random_questions ?draw 0 [?r1, ?r2, ?r3] 2 (Some 7) = Inr [?r3, ?r2]"
    by code_simp
  have 2: "load_random_questions ?draw 5 [?r1, ?r2, ?r3] 2 (Some 7) = Inr [?r3, ?r2]"
    by code_simp
  from load_random_questions_deterministic [OF 1 2]
  have "map qnum [?r3, ?r2] = ?draw 7 (map qnum [?r1, ?r2, ?r3]) (nat 2)" by blast
  also have "\<dots> = [30, 20]" by code_simp
  finally have 3: "map qnum [?r3, ?r2] = [30, 20]" .
  from 1 3 show ?thesis by blast
qed



text \<open>
  Claim C10 as it is written lets \<open>load_random_questions\<close> fail only on an empty
  store or on a count above the total. A negative count passes both tests and reaches
  \<open>random.sample\<close>, which raises for it: the call fails on a store of one row with
  the count \<open>-1\<close>.
\<close>

theorem load_random_questions_negative_counterexample:
  "load_random_questions (\<lambda>s p k. take k p) 0
     [\<lparr>qnum = 1, question_text = ''q'', answer_text = ''a'',
       answer_value = None, answer_option = None\<rparr>] (- 1) (Some 7) = Inl SampleRange \<and>
   [\<lparr>qnum = 1, question_text = ''q'', answer_text = ''a'',
       answer_value = None, answer_option = None\<rparr>] \<noteq> [] \<and>
   \<not> (- 1 > int (length [\<lparr>qnum = 1, question_text = ''q'', answer_text = ''a'',
       answer_value = None, answer_option = None\<rparr>]))"
  by (simp add: load_random_questions_def rng_sample_def)

text \<open>
  Claim C10, amended. For a count that is not negative, and a generator whose samples
  have the requested size and come from the population, \<open>load_random_questions\<close>
  fails if and only if the store is empty or the count exceeds the number of rows. In
  particular a count of 0 on a non-empty store succeeds with the empty list.
\<close>

theorem load_random_questions_errors:
  assumes "sample_contract draw" and "0 \<le> count"
  shows "((\<exists>e. load_random_questions draw en db count seed = Inl e) \<longleftrightarrow>
            (db = [] \<or> count > int (length db))) \<and>
         (db \<noteq> [] \<longrightarrow> load_random_questions draw en db 0 seed = Inr [])"
proof (intro conjI impI iffI)
  assume "\<exists>e. load_random_questions draw en db count seed = Inl e"
  then show "db = [] \<or> count > int (length db)"
    using load_success [OF assms(1) _ assms(2), of db en seed] by fastforce
next
  assume "db = [] \<or> count > int (length db)"
  then show "\<exists>e. load_random_questions draw en db count seed = Inl e"
    by (auto simp: load_random_questions_def Let_def)
next
  assume "db \<noteq> []"
  then show "load_random_questions draw en db 0 seed = Inr []"
    using load_success [OF assms(1), of db 0 en seed] by auto
qed

theorem load_random_questions_errors_witness:
  "load_random_questions (\<lambda>s p k. take k p) 0
     [\<lparr>qnum = 1, question_text = ''q'', answer_text = ''a'',
       answer_value = None, answer_option = None\<rparr>] 0 None = Inr [] \<and>
   load_random_questions (\<lambda>s p k. take k p) 0
     [\<lparr>qnum = 1, question_text = ''q'', answer_text = ''a'',
       answer_value = None, answer_option = None\<rparr>] 1 None =
     Inr [\<lparr>qnum = 1, question_text = ''q'', answer_text = ''a'',
       answer_value = None, answer_option = None\<rparr>] \<and>
   (\<exists>e. load_random_questions (\<lambda>s p k. take k p) 0
     [\<lparr>qnum = 1, question_text = ''q'', answer_text = ''a'',
       answer_value = None, answer_option = None\<rparr>] 2 None = Inl e)"
proof -
  let ?db = "[\<lparr>qnum = 1, question_text = ''q'', answer_text = ''a'',
       answer_value = None, answer_option = None\<rparr>]"
  have c: "sample_contract (\<lambda>s p k. take k p)"
    by (auto simp: sample_contract_def dest: in_set_takeD)
  have z: "(0::int) \<le> 0" "(0::int) \<le> 2" by simp_all
  have n: "?db \<noteq> []" by simp
  have g: "?db = [] \<or> 2 > int (length ?db)" by simp
  from load_random_questions_errors [OF c z(1), of 0 ?db None] n
  have 1: "load_random_questions (\<lambda>s p k. take k p) 0 ?db 0 None = Inr []" by blast
  from load_random_questions_errors [OF c z(2), of 0 ?db None] g
  have 2: "\<exists>e. load_random_questions (\<lambda>s p k. take k p) 0 ?db 2 None = Inl e" by blast
  have 3: "load_random_questions (\<lambda>s p k. take k p) 0 ?db 1 None = Inr ?db" by code_simp
  from 1 2 3 show ?thesis by blast
qed

end
